theory Spec2Isabelle
  imports Complex_Main
begin

section \<open>Python values used by the process-grid factorisation\<close>

text \<open>
  \<^verbatim>\<open>break_number_into_factors\<close> (pyrate/core/user_experience.py) mixes Python ints and
  floats: \<^verbatim>\<open>n / i\<close> is true division and yields a float. The quotient is only taken
  when \<^verbatim>\<open>n % i == 0\<close>, so every float that arises holds an integer. A number is
  therefore an int or a float together with the integer it holds. A double holds every
  integer of magnitude at most \<open>2^53\<close> exactly; an operation on doubles whose operand
  or result leaves that range (or is not an integer) is not tracked further and yields
  \<open>FloatInexact\<close>, which is the only outcome below that is not a Python exception.
\<close>

datatype pynum = PyInt int | PyFloat int

fun num_val :: "pynum \<Rightarrow> int" where
  "num_val (PyInt k) = k"
| "num_val (PyFloat k) = k"

datatype error = TypeError | IndexError | ZeroDivisionError | ValueError | FloatInexact

definition double_exact :: "int \<Rightarrow> bool" where
  "double_exact k = (\<bar>k\<bar> \<le> 9007199254740992)"

definition as_double :: "int \<Rightarrow> error + pynum" where
  "as_double k = (if double_exact k then Inr (PyFloat k) else Inl FloatInexact)"

text \<open>\<^verbatim>\<open>n % i\<close> with an int \<open>i\<close>: floored modulo on ints and on floats alike.\<close>

fun py_mod :: "pynum \<Rightarrow> int \<Rightarrow> error + pynum" where
  "py_mod (PyInt a) i =
     (if i = 0 then Inl ZeroDivisionError else Inr (PyInt (a mod i)))"
| "py_mod (PyFloat a) i =
     (if i = 0 then Inl ZeroDivisionError
      else if double_exact i then Inr (PyFloat (a mod i))
      else Inl FloatInexact)"

text \<open>\<^verbatim>\<open>n / i\<close> with an int \<open>i\<close>: true division, always a float.\<close>

fun py_truediv :: "pynum \<Rightarrow> int \<Rightarrow> error + pynum" where
  "py_truediv (PyInt a) i =
     (if i = 0 then Inl ZeroDivisionError
      else if i dvd a then as_double (a div i)
      else Inl FloatInexact)"
| "py_truediv (PyFloat a) i =
     (if i = 0 then Inl ZeroDivisionError
      else if double_exact i \<and> i dvd a then as_double (a div i)
      else Inl FloatInexact)"

text \<open>\<^verbatim>\<open>x + i\<close> with an int \<open>i\<close>: an int stays an int, a float stays a float.\<close>

fun py_add :: "pynum \<Rightarrow> int \<Rightarrow> error + pynum" where
  "py_add (PyInt a) i = Inr (PyInt (a + i))"
| "py_add (PyFloat a) i =
     (if double_exact i then as_double (a + i) else Inl FloatInexact)"

text \<open>
  What the function returns and what the cache holds: a number, a list of numbers, or a
  2-tuple (\<^verbatim>\<open>n, [n]\<close> and \<^verbatim>\<open>2, 2\<close> are the tuples the source builds).
\<close>

datatype pyval = VNum pynum | VList "pynum list" | VTuple pyval pyval

text \<open>\<^verbatim>\<open>rem[k]\<close>\<close>

fun py_index :: "pyval \<Rightarrow> nat \<Rightarrow> error + pyval" where
  "py_index (VTuple a b) k =
     (if k = 0 then Inr a else if k = 1 then Inr b else Inl IndexError)"
| "py_index (VList xs) k =
     (if k < length xs then Inr (VNum (xs ! k)) else Inl IndexError)"
| "py_index (VNum x) k = Inl TypeError"

text \<open>\<^verbatim>\<open>rem[0] + i\<close>: only a number can be added to the int \<open>i\<close>.\<close>

fun py_add_int :: "pyval \<Rightarrow> int \<Rightarrow> error + pynum" where
  "py_add_int (VNum x) i = py_add x i"
| "py_add_int (VList xs) i = Inl TypeError"
| "py_add_int (VTuple a b) i = Inl TypeError"

text \<open>\<^verbatim>\<open>[i] + rem[1]\<close>: only a list can be concatenated to a list.\<close>

fun py_concat :: "pynum list \<Rightarrow> pyval \<Rightarrow> error + pynum list" where
  "py_concat xs (VList ys) = Inr (xs @ ys)"
| "py_concat xs (VNum y) = Inl TypeError"
| "py_concat xs (VTuple a b) = Inl TypeError"

text \<open>
  The cache \<^verbatim>\<open>memo\<close> is a dict keyed by \<^verbatim>\<open>(n, left)\<close>; Python compares and hashes
  \<open>4\<close> and \<open>4.0\<close> alike, so the key is the numeric value of \<open>n\<close>.
\<close>

type_synonym memo = "int \<times> int \<rightharpoonup> pyval"

section \<open>The process-grid factorisation\<close>

text \<open>
  The body of the \<^verbatim>\<open>if n % i == 0\<close> branch after the recursive call:
  \<^verbatim>\<open>
            if rem[0] + i < best:
                best = rem[0] + i
                bestTuple = [i] + rem[1]
  \<close>
\<close>

definition update_best ::
  "pyval \<Rightarrow> int \<Rightarrow> pynum \<Rightarrow> pynum list \<Rightarrow> error + (pynum \<times> pynum list)" where
  "update_best rem i best bestTuple =
     (case py_index rem 0 of
        Inl e \<Rightarrow> Inl e
      | Inr r0 \<Rightarrow>
          (case py_add_int r0 i of
             Inl e \<Rightarrow> Inl e
           | Inr s \<Rightarrow>
               if num_val s < num_val best then
                 (case py_index rem 1 of
                    Inl e \<Rightarrow> Inl e
                  | Inr r1 \<Rightarrow>
                      (case py_concat [PyInt i] r1 of
                         Inl e \<Rightarrow> Inl e
                       | Inr t \<Rightarrow> Inr (s, t)))
               else Inr (best, bestTuple)))"

text \<open>
  \<^verbatim>\<open>
  def break_number_into_factors(n, memo={}, left=2):
      if (n, left) in memo:
          return memo[(n, left)]
      if left == 1:
          return n, [n]
      i = 2
      best = n
      bestTuple = [n]
      while i * i <= n:
          if n % i == 0:
              rem = break_number_into_factors(n / i, memo, left - 1)
              if rem[0] + i < best:
                  best = rem[0] + i
                  bestTuple = [i] + rem[1]
          i += 1

      # handle edge case when only one processor is available
      if bestTuple == [4]:
          return 2, 2

      if len(bestTuple) == 1:
          bestTuple.append(1)
          return bestTuple

      return bestTuple
  \<close>
  The function and its \<^verbatim>\<open>while\<close> loop are mutually recursive. The cache is passed in
  and handed back with the result, so that every write to it would show; the source has
  none. \<open>while_loop\<close> carries the loop variables \<open>i\<close>, \<open>best\<close> and \<open>bestTuple\<close> and
  returns \<open>bestTuple\<close> as it stands when the loop ends.
\<close>

function break_number_into_factors ::
    "pynum \<Rightarrow> memo \<Rightarrow> int \<Rightarrow> (error + pyval) \<times> memo"
  and while_loop ::
    "pynum \<Rightarrow> memo \<Rightarrow> int \<Rightarrow> int \<Rightarrow> pynum \<Rightarrow> pynum list \<Rightarrow> (error + pynum list) \<times> memo"
where
  "break_number_into_factors n memo left =
     (case memo (num_val n, left) of
        Some r \<Rightarrow> (Inr r, memo)
      | None \<Rightarrow>
          if left = 1 then (Inr (VTuple (VNum n) (VList [n])), memo)
          else
            (case while_loop n memo left 2 n [n] of
               (Inl e, memo') \<Rightarrow> (Inl e, memo')
             | (Inr bestTuple, memo') \<Rightarrow>
                 if map num_val bestTuple = [4]
                 then (Inr (VTuple (VNum (PyInt 2)) (VNum (PyInt 2))), memo')
                 else if length bestTuple = 1
                 then (Inr (VList (bestTuple @ [PyInt 1])), memo')
                 else (Inr (VList bestTuple), memo')))"
| "while_loop n memo left i best bestTuple =
     (if i * i \<le> num_val n then
        (case py_mod n i of
           Inl e \<Rightarrow> (Inl e, memo)
         | Inr m \<Rightarrow>
             if num_val m = 0 then
               (case py_truediv n i of
                  Inl e \<Rightarrow> (Inl e, memo)
                | Inr q \<Rightarrow>
                    (case break_number_into_factors q memo (left - 1) of
                       (Inl e, memo') \<Rightarrow> (Inl e, memo')
                     | (Inr rem, memo') \<Rightarrow>
                         (case update_best rem i best bestTuple of
                            Inl e \<Rightarrow> (Inl e, memo')
                          | Inr (best', bestTuple') \<Rightarrow>
                              while_loop n memo' left (i + 1) best' bestTuple')))
             else while_loop n memo left (i + 1) best bestTuple)
      else (Inr bestTuple, memo))"
  by pat_completeness auto

text \<open>
  Termination: a recursive call is only made on \<open>n / i\<close> with \<open>i * i \<le> n\<close> and
  \<open>n % i == 0\<close>, which is smaller than \<open>n\<close> for every \<open>i\<close> the loop reaches (it
  starts at 2), and the loop ends once \<open>i * i\<close> exceeds \<open>n\<close>. The depth \<open>left\<close> plays
  no part: it may be 0 or negative and never reach 1.
\<close>

termination
proof -
  have sq: "\<bar>i\<bar> \<le> i * i" for i :: int
  proof (cases "i = 0")
    case False
    then have "1 * \<bar>i\<bar> \<le> \<bar>i\<bar> * \<bar>i\<bar>" by (intro mult_right_mono) auto
    then show ?thesis by simp
  qed simp
  show ?thesis
  proof (relation "inv_image (less_than <*lex*> less_than)
     (\<lambda>x. case x of
        Inl (n, memo, left) \<Rightarrow> (nat (num_val n), nat (num_val n) + 1)
      | Inr (n, memo, left, i, best, bestTuple) \<Rightarrow>
          (nat (num_val n), nat (num_val n + 1 - i) + (if i \<le> 1 then 2 else 0)))",
    goal_cases)
    case 1
    show ?case by (intro wf_inv_image wf_lex_prod wf_less_than)
  next
    case (2 n memo left)
    show ?case by (simp add: nat_less_iff)
  next
    case (3 n memo left i best bestTuple m q)
    have i0: "i \<noteq> 0" and qv: "num_val q = num_val n div i"
      using \<open>py_truediv n i = Inr q\<close>
      by (cases n; auto simp: as_double_def split: if_splits)+
    have npos: "0 < num_val n"
      using sq [of i] i0 \<open>i * i \<le> num_val n\<close> by linarith
    consider "i = 1" | "i < 0" | "2 \<le> i" using i0 by linarith
    then show ?case
    proof cases
      case 1
      then show ?thesis using npos qv by simp
    next
      case 2
      then have "num_val n div i \<le> 0" using npos
        by (intro div_nonneg_neg_le0) auto
      then show ?thesis using npos qv by simp
    next
      case 3
      have "num_val n div i < num_val n"
        using npos 3 by (simp add: int_div_less_self)
      then show ?thesis using npos qv 3 by simp
    qed
  next
    case (4 n memo left i best bestTuple m q x y rem bc xa ya)
    have "i \<le> num_val n"
      using sq [of i] \<open>i * i \<le> num_val n\<close> by linarith
    then show ?case by auto
  next
    case (5 n memo left i best bestTuple m)
    have "i \<le> num_val n"
      using sq [of i] \<open>i * i \<le> num_val n\<close> by linarith
    then show ?case by auto
  qed
qed

declare break_number_into_factors.simps [simp del] while_loop.simps [simp del]

text \<open>
  A prime process count, one without a proper divisor: the divisors tried are the
  finitely many candidates below \<open>n\<close>.
\<close>

definition is_prime :: "int \<Rightarrow> bool" where
  "is_prime n = (1 < n \<and> (\<forall>d \<in> {2..<n}. \<not> d dvd n))"


section \<open>Multilooking\<close>

text \<open>
  \<^verbatim>\<open>multilooking\<close> (tests/test_prepifg.py) works on a 2-D numpy array of floats in
  which NaN marks a missing sample. An array is its shape and its samples in row-major
  order; a sample is \<open>None\<close> for NaN and \<open>Some v\<close> otherwise. Sample values are
  reals: the rounding of the double-precision mean is not modelled.
\<close>

type_synonym sample = "real option"

record ndarray =
  nrows :: nat
  ncols :: nat
  cells :: "sample list"

definition wf_array :: "ndarray \<Rightarrow> bool" where
  "wf_array a = (length (cells a) = nrows a * ncols a)"

text \<open>\<^verbatim>\<open>a[r, c]\<close> for indices inside the shape.\<close>

definition cell_at :: "ndarray \<Rightarrow> nat \<Rightarrow> nat \<Rightarrow> sample" where
  "cell_at a r c = cells a ! (r * ncols a + c)"

text \<open>\<^verbatim>\<open>ones((r, c)) * nan\<close>\<close>

definition nan_array :: "nat \<Rightarrow> nat \<Rightarrow> ndarray" where
  "nan_array r c = \<lparr>nrows = r, ncols = c, cells = replicate (r * c) None\<rparr>"

text \<open>\<^verbatim>\<open>a[ys:ye, xs:xe]\<close>: a slice is clipped to the shape, it never raises.\<close>

definition slice2 :: "ndarray \<Rightarrow> nat \<Rightarrow> nat \<Rightarrow> nat \<Rightarrow> nat \<Rightarrow> ndarray" where
  "slice2 a ys ye xs xe =
     (let ye' = min ye (nrows a); xe' = min xe (ncols a)
      in \<lparr>nrows = ye' - ys, ncols = xe' - xs,
          cells = concat (map (\<lambda>r. map (\<lambda>c. cell_at a r c) [xs..<xe']) [ys..<ye'])\<rparr>)"

text \<open>\<^verbatim>\<open>npsum(isnan(patch))\<close>\<close>

definition count_nan :: "ndarray \<Rightarrow> nat" where
  "count_nan a = length (filter (\<lambda>s. s = None) (cells a))"

text \<open>\<^verbatim>\<open>patch.reshape(size)\<close> raises ValueError unless the patch has \<open>size\<close> samples.\<close>

definition reshape1 :: "ndarray \<Rightarrow> nat \<Rightarrow> error + sample list" where
  "reshape1 a n = (if length (cells a) = n then Inr (cells a) else Inl ValueError)"

text \<open>numpy's \<^verbatim>\<open>nanmean\<close>: the mean of the samples that are not NaN, NaN if there is none.\<close>

definition valid_values :: "sample list \<Rightarrow> real list" where
  "valid_values xs = map the (filter (\<lambda>s. s \<noteq> None) xs)"

definition nanmean :: "sample list \<Rightarrow> sample" where
  "nanmean xs =
     (let vs = valid_values xs
      in if vs = [] then None else Some (sum_list vs / real (length vs)))"

text \<open>\<^verbatim>\<open>dest[row, col] = v\<close>\<close>

definition set_cell :: "ndarray \<Rightarrow> nat \<Rightarrow> nat \<Rightarrow> sample \<Rightarrow> error + ndarray" where
  "set_cell a r c v =
     (if r < nrows a \<and> c < ncols a
      then Inr (a\<lparr>cells := (cells a)[r * ncols a + c := v]\<rparr>)
      else Inl IndexError)"

text \<open>\<^verbatim>\<open>int(thresh)\<close> of a finite number: truncation towards zero.\<close>

definition py_int :: "real \<Rightarrow> int" where
  "py_int t = (if 0 \<le> t then \<lfloor>t\<rfloor> else \<lceil>t\<rceil>)"

text \<open>A \<^verbatim>\<open>for\<close> loop over a range whose body updates the state or raises.\<close>

fun for_each :: "(nat \<Rightarrow> 's \<Rightarrow> error + 's) \<Rightarrow> nat list \<Rightarrow> 's \<Rightarrow> error + 's" where
  "for_each body [] s = Inr s"
| "for_each body (k # ks) s =
     (case body k s of Inl e \<Rightarrow> Inl e | Inr s' \<Rightarrow> for_each body ks s')"

text \<open>
  \<^verbatim>\<open>
  def multilooking(src, xscale, yscale, thresh=0):
      """
      src: numpy array of phase data
      thresh: min number of non-NaNs required for a valid tile resampling
      """
      thresh = int(thresh)
      num_cells = xscale * yscale
      if thresh > num_cells or thresh < 0:
          msg = "Invalid threshold: %s (need 0 <= thr <= %s" % (thresh, num_cells)
          raise ValueError(msg)

      rows, cols = src.shape
      rows_lowres = int(floor(rows / yscale))
      cols_lowres = int(floor(cols / xscale))
      dest = ones((rows_lowres, cols_lowres)) * nan

      size = xscale * yscale
      for row in range(rows_lowres):
          for col in range(cols_lowres):
              ys = row * yscale
              ye = ys + yscale
              xs = col * xscale
              xe = xs + xscale

              patch = src[ys:ye, xs:xe]
              num_values = num_cells - npsum(isnan(patch))

              if num_values >= thresh and num_values > 0:
                  # nanmean() only works on 1g axis
                  reshaped = patch.reshape(size)
                  dest[row, col] = nanmean(reshaped)

      return dest
  \<close>
  \<open>tile_step\<close> is the body of the inner loop. The look factors are counts (a
  \<open>nat\<close>); \<open>size'\<close> is the source's \<^verbatim>\<open>size\<close>; a factor 0 makes \<^verbatim>\<open>rows / yscale\<close> raise. \<^verbatim>\<open>floor(rows / yscale)\<close> goes
  through a double, which is exact for every array that fits in memory, so it is the
  integer quotient. The threshold is any finite number, an int or a float.
\<close>

definition tile_step ::
  "ndarray \<Rightarrow> nat \<Rightarrow> nat \<Rightarrow> int \<Rightarrow> nat \<Rightarrow> nat \<Rightarrow> nat \<Rightarrow> nat \<Rightarrow> ndarray \<Rightarrow> error + ndarray" where
  "tile_step src xscale yscale thresh num_cells size' row col dest =
     (let ys = row * yscale; ye = ys + yscale;
          xs = col * xscale; xe = xs + xscale;
          patch = slice2 src ys ye xs xe;
          num_values = int num_cells - int (count_nan patch)
      in if num_values \<ge> thresh \<and> num_values > 0 then
           (case reshape1 patch size' of
              Inl e \<Rightarrow> Inl e
            | Inr reshaped \<Rightarrow> set_cell dest row col (nanmean reshaped))
         else Inr dest)"

definition multilooking :: "ndarray \<Rightarrow> nat \<Rightarrow> nat \<Rightarrow> real \<Rightarrow> error + ndarray" where
  "multilooking src xscale yscale thresh0 =
     (let thresh = py_int thresh0; num_cells = xscale * yscale
      in if thresh > int num_cells \<or> thresh < 0 then Inl ValueError
         else if yscale = 0 \<or> xscale = 0 then Inl ZeroDivisionError
         else
           (let rows = nrows src; cols = ncols src;
                rows_lowres = rows div yscale;
                cols_lowres = cols div xscale;
                dest = nan_array rows_lowres cols_lowres;
                size' = xscale * yscale
            in for_each
                 (\<lambda>row. for_each
                    (\<lambda>col. tile_step src xscale yscale thresh num_cells size' row col)
                    [0..<cols_lowres])
                 [0..<rows_lowres] dest))"

text \<open>
  The tile of output cell \<open>(row, col)\<close> in the words of the specification: the
  \<open>yscale\<close> by \<open>xscale\<close> block of input samples whose top-left corner is
  \<open>(row * yscale, col * xscale)\<close>, and what the specification asks of the cell.
\<close>

definition tile_samples :: "ndarray \<Rightarrow> nat \<Rightarrow> nat \<Rightarrow> nat \<Rightarrow> nat \<Rightarrow> sample list" where
  "tile_samples src xscale yscale row col =
     concat (map (\<lambda>dy. map (\<lambda>dx. cell_at src (row * yscale + dy) (col * xscale + dx))
                          [0..<xscale])
                 [0..<yscale])"

definition tile_mean :: "int \<Rightarrow> sample list \<Rightarrow> sample" where
  "tile_mean thresh tile =
     (let vs = valid_values tile
      in if int (length vs) \<ge> thresh \<and> length vs > 0
         then Some (sum_list vs / real (length vs)) else None)"

text \<open>The shape invariant of \<^verbatim>\<open>dest\<close> while the loops run.\<close>

definition same_shape :: "ndarray \<Rightarrow> nat \<Rightarrow> nat \<Rightarrow> bool" where
  "same_shape d rl cl = (nrows d = rl \<and> ncols d = cl \<and> length (cells d) = rl * cl)"

section \<open>Output naming\<close>

text \<open>
  The output namer \<^verbatim>\<open>mlooked_path\<close> is known from the specification and from the tests
  that call it. Its model needs the decimal form of an int and the extension of a path.
\<close>

text \<open>\<^verbatim>\<open>str(k)\<close> of an int: its decimal digits, with a minus sign when negative.\<close>

definition digit_char :: "nat \<Rightarrow> char" where
  "digit_char d = ''0123456789'' ! d"

fun show_nat :: "nat \<Rightarrow> string" where
  "show_nat n =
     (if n < 10 then [digit_char n]
      else show_nat (n div 10) @ [digit_char (n mod 10)])"

definition show_int :: "int \<Rightarrow> string" where
  "show_int k = (if k < 0 then CHR ''-'' # show_nat (nat (- k)) else show_nat (nat k))"

text \<open>
  The extension of a path: it starts at the last dot of the last path component,
  provided that component has a character other than a dot before it (a leading dot
  starts no extension). The result is the path without the extension, and the
  extension with its dot (empty when there is none).
\<close>

definition splitext :: "string \<Rightarrow> string \<times> string" where
  "splitext p =
     (let r = rev p;
          e = takeWhile (\<lambda>c. c \<noteq> CHR ''.'' \<and> c \<noteq> CHR ''/'') r;
          rest = drop (length e) r
      in case rest of
           [] \<Rightarrow> (p, [])
         | c # b \<Rightarrow>
             if c = CHR ''.'' \<and>
                list_ex (\<lambda>d. d \<noteq> CHR ''.'') (takeWhile (\<lambda>d. d \<noteq> CHR ''/'') b)
             then (rev b, CHR ''.'' # rev e)
             else (p, []))"

text \<open>The suffix \<^verbatim>\<open>_<looks>rlks_<crop>cr\<close>.\<close>

definition look_suffix :: "int \<Rightarrow> int \<Rightarrow> string" where
  "look_suffix looks crop_out =
     ''_'' @ show_int looks @ ''rlks_'' @ show_int crop_out @ ''cr''"

text \<open>
  Modelled from the spec: \<^verbatim>\<open>mlooked_path\<close> of pyrate/core/config.py, which the tests
  import and call (\<^verbatim>\<open>test_mlooked_path\<close>) but which is not among the sources. The
  specification: the new path has the suffix \<^verbatim>\<open>_<looks>rlks_<crop>cr\<close> inserted before
  the original extension.
\<close>

definition mlooked_path :: "string \<Rightarrow> int \<Rightarrow> int \<Rightarrow> string" where
  "mlooked_path path looks crop_out =
     (case splitext path of (base, ext) \<Rightarrow> base @ look_suffix looks crop_out @ ext)"

section \<open>Properties of the process-grid factorisation\<close>

subsection \<open>The cache\<close>

text \<open>
  No path through the function or its loop changes the cache: it is looked up once,
  on entry, and never assigned.
\<close>

lemma memo_unchanged:
  "snd (break_number_into_factors n memo left) = memo"
  "snd (while_loop n memo left i best bestTuple) = memo"
proof (induction n memo left and n memo left i best bestTuple
    rule: break_number_into_factors_while_loop.induct)
  case (1 n memo left)
  then show ?case
    by (subst break_number_into_factors.simps)
       (auto split: option.splits sum.splits prod.splits)
next
  case (2 n memo left i best bestTuple)
  then show ?case
    by (subst while_loop.simps)
       (auto split: option.splits sum.splits prod.splits; metis snd_conv)
qed

text \<open>
  C8. The claim: results are memoized by the pair \<open>(value, left)\<close>, so that after a
  call \<^verbatim>\<open>break_number_into_factors(N, memo, left)\<close> the cache maps \<open>(N, left)\<close> to the
  computed result. The source looks the key up but never stores: every call hands the
  cache back as it received it, and after the call with \<open>N = 6\<close>, \<open>left = 2\<close> and an
  empty cache, which computes the list \<open>[2, 3.0]\<close>, the cache still has no entry for
  \<open>(6, 2)\<close>.
\<close>

theorem cache_not_filled:
  "snd (break_number_into_factors n memo left) = memo \<and>
   fst (break_number_into_factors (PyInt 6) Map.empty 2) = Inr (VList [PyInt 2, PyFloat 3]) \<and>
   snd (break_number_into_factors (PyInt 6) Map.empty 2) (6, 2) = None"
proof -
  have "fst (break_number_into_factors (PyInt 6) Map.empty 2) = Inr (VList [PyInt 2, PyFloat 3])"
    by code_simp
  then show ?thesis by (simp add: memo_unchanged)
qed

subsection \<open>The shape of the result\<close>

text \<open>
  C5. The claim: for every positive \<open>N\<close> and every \<open>left \<ge> 1\<close> the function returns
  the pair (minimal sum of \<open>left\<close> factors, list of those factors). Only the base case
  \<open>left = 1\<close> returns such a pair, and the recursive call reads its result as one
  (\<^verbatim>\<open>rem[0]\<close> the sum, \<^verbatim>\<open>rem[1]\<close> the list). For \<open>left = 2\<close> the function returns the
  bare list of factors: \<open>N = 6\<close> gives \<open>[2, 3.0]\<close>, not \<open>(5, [2, 3])\<close>. For \<open>left = 3\<close>
  the loop then reads that list as a pair and \<^verbatim>\<open>[i] + rem[1]\<close> raises TypeError, as at
  \<open>N = 12\<close>.
\<close>

theorem result_is_bare_list:
  "fst (break_number_into_factors (PyInt 6) Map.empty 1) =
     Inr (VTuple (VNum (PyInt 6)) (VList [PyInt 6])) \<and>
   fst (break_number_into_factors (PyInt 6) Map.empty 2) = Inr (VList [PyInt 2, PyFloat 3]) \<and>
   fst (break_number_into_factors (PyInt 12) Map.empty 3) = Inl TypeError"
  by code_simp

subsection \<open>Four processes\<close>

text \<open>
  C6. For \<open>N = 4\<close> with the default \<open>left = 2\<close> the function returns the pair
  \<open>(2, 2)\<close> exactly, and so neither of the degenerate splits \<open>[4, 1]\<close> and \<open>[1, 4]\<close>.
\<close>

theorem four_gives_two_by_two:
  "fst (break_number_into_factors (PyInt 4) Map.empty 2) =
     Inr (VTuple (VNum (PyInt 2)) (VNum (PyInt 2))) \<and>
   fst (break_number_into_factors (PyInt 4) Map.empty 2) \<noteq> Inr (VList [PyInt 4, PyInt 1]) \<and>
   fst (break_number_into_factors (PyInt 4) Map.empty 2) \<noteq> Inr (VList [PyInt 1, PyInt 4])"
  by code_simp

subsection \<open>Process counts without a proper divisor\<close>

lemma while_loop_no_divisor:
  assumes "\<And>j. i \<le> j \<Longrightarrow> j * j \<le> a \<Longrightarrow> a mod j \<noteq> 0" "2 \<le> i"
  shows "while_loop (PyInt a) memo left i best bestTuple = (Inr bestTuple, memo)"
  using assms
proof (induction "nat (a + 1 - i)" arbitrary: i rule: less_induct)
  case less
  show ?case
  proof (cases "i * i \<le> a")
    case True
    have "i \<le> i * i" using \<open>2 \<le> i\<close> by (simp add: mult_le_cancel_left1)
    then have lt: "nat (a + 1 - (i + 1)) < nat (a + 1 - i)" using True by linarith
    have nd: "a mod i \<noteq> 0" using less.prems(1) [of i] True by simp
    have "while_loop (PyInt a) memo left (i + 1) best bestTuple = (Inr bestTuple, memo)"
      using less.hyps [OF lt] less.prems by simp
    then show ?thesis
      using True nd \<open>2 \<le> i\<close> by (subst while_loop.simps) simp
  next
    case False
    then show ?thesis by (subst while_loop.simps) simp
  qed
qed

lemma prime_no_divisor:
  assumes "is_prime p" "2 \<le> j" "j * j \<le> p"
  shows "p mod j \<noteq> 0"
proof -
  have "j < j * j" using \<open>2 \<le> j\<close> by (simp add: mult_less_cancel_left1)
  then have "j < p" using \<open>j * j \<le> p\<close> by linarith
  then have "j \<in> {2..<p}" using \<open>2 \<le> j\<close> by simp
  then have "\<not> j dvd p" using \<open>is_prime p\<close> by (simp add: is_prime_def)
  then show ?thesis by (simp add: dvd_eq_mod_eq_0)
qed

text \<open>
  C7, as the claim states it: for a prime \<open>N\<close> with \<open>left = 2\<close> the function returns
  the list \<open>[1, N]\<close>. It does not: \<^verbatim>\<open>bestTuple\<close> starts as \<open>[N]\<close> and
  \<^verbatim>\<open>bestTuple.append(1)\<close> puts the 1 last. At \<open>N = 3\<close> the result is \<open>[3, 1]\<close>.
\<close>

theorem prime_split_not_one_first:
  "is_prime 3 \<and>
   fst (break_number_into_factors (PyInt 3) Map.empty 2) = Inr (VList [PyInt 3, PyInt 1]) \<and>
   fst (break_number_into_factors (PyInt 3) Map.empty 2) \<noteq> Inr (VList [PyInt 1, PyInt 3])"
  by code_simp

text \<open>
  C7, amended: for every prime \<open>N\<close> with \<open>left = 2\<close> (and the default, empty cache) the
  function returns the list \<open>[N, 1]\<close>, and for \<open>N = 1\<close> it returns \<open>[1, 1]\<close>.
\<close>

theorem prime_gives_self_and_one:
  "(is_prime p \<longrightarrow>
      fst (break_number_into_factors (PyInt p) Map.empty 2) = Inr (VList [PyInt p, PyInt 1])) \<and>
   fst (break_number_into_factors (PyInt 1) Map.empty 2) = Inr (VList [PyInt 1, PyInt 1])"
proof (intro conjI impI)
  assume pr: "is_prime p"
  have "\<not> is_prime 4" by code_simp
  then have p4: "p \<noteq> 4" using pr by auto
  have "while_loop (PyInt p) Map.empty 2 2 (PyInt p) [PyInt p] = (Inr [PyInt p], Map.empty)"
    by (rule while_loop_no_divisor) (use pr prime_no_divisor in auto)
  then show "fst (break_number_into_factors (PyInt p) Map.empty 2) = Inr (VList [PyInt p, PyInt 1])"
    using p4 by (subst break_number_into_factors.simps) simp
next
  show "fst (break_number_into_factors (PyInt 1) Map.empty 2) = Inr (VList [PyInt 1, PyInt 1])"
    by code_simp
qed

theorem prime_gives_self_and_one_witness:
  "is_prime 7 \<and>
   fst (break_number_into_factors (PyInt 7) Map.empty 2) = Inr (VList [PyInt 7, PyInt 1])"
proof -
  have h: "is_prime 7" by code_simp
  show ?thesis using h prime_gives_self_and_one [of 7] by simp
qed

subsection \<open>Two factors whose product is the process count\<close>







section \<open>Properties of multilooking\<close>

text \<open>A tile of the low-resolution grid lies inside the input grid.\<close>

lemma tile_inside:
  assumes "row < n div scale"
  shows "row * scale + scale \<le> (n::nat)"
proof -
  have "Suc row \<le> n div scale" using assms by simp
  then have "Suc row * scale \<le> (n div scale) * scale" by (rule mult_le_mono1)
  also have "\<dots> \<le> n" by simp
  finally show ?thesis by (simp add: algebra_simps)
qed

lemma slice2_tile:
  assumes "row < nrows src div yscale" "col < ncols src div xscale"
  shows "cells (slice2 src (row * yscale) (row * yscale + yscale) (col * xscale) (col * xscale + xscale))
         = tile_samples src xscale yscale row col"
proof -
  have r: "min (row * yscale + yscale) (nrows src) = row * yscale + yscale"
    using tile_inside [OF assms(1)] by simp
  have c: "min (col * xscale + xscale) (ncols src) = col * xscale + xscale"
    using tile_inside [OF assms(2)] by simp
  have m: "map f [a..<a + n] = map (\<lambda>d. f (a + d)) [0..<n]" for f :: "nat \<Rightarrow> 'b" and a n
    by (rule nth_equalityI) auto
  show ?thesis
    by (simp add: slice2_def tile_samples_def r c Let_def m)
qed

lemma length_tile_samples:
  "length (tile_samples src xscale yscale row col) = xscale * yscale"
  by (simp add: tile_samples_def length_concat comp_def sum_list_triv)

lemma count_valid:
  "int (length xs) - int (length (filter (\<lambda>s. s = None) xs)) = int (length (valid_values xs))"
proof -
  have "length (filter (\<lambda>s. s = None) xs) + length (filter (\<lambda>s. s \<noteq> None) xs) = length xs"
    using sum_length_filter_compl [of "\<lambda>s. s = None" xs] by simp
  then show ?thesis by (simp add: valid_values_def)
qed

lemma tile_step_inside:
  assumes "row < nrows src div yscale" "col < ncols src div xscale"
    and "nrows dest = nrows src div yscale" "ncols dest = ncols src div xscale"
  shows "tile_step src xscale yscale k (xscale * yscale) (xscale * yscale) row col dest =
     Inr (case tile_mean k (tile_samples src xscale yscale row col) of
            None \<Rightarrow> dest
          | Some v \<Rightarrow>
              dest\<lparr>cells := (cells dest)[row * (ncols src div xscale) + col := Some v]\<rparr>)"
proof -
  let ?t = "tile_samples src xscale yscale row col"
  have nv: "int (xscale * yscale) - int (count_nan (slice2 src (row * yscale) (row * yscale + yscale) (col * xscale) (col * xscale + xscale)))
      = int (length (valid_values ?t))"
    using count_valid [of ?t]
    by (simp add: count_nan_def slice2_tile [OF assms(1,2)] length_tile_samples)
  show ?thesis
    unfolding tile_step_def Let_def nv
    using assms
    by (auto simp: reshape1_def slice2_tile length_tile_samples set_cell_def tile_mean_def nanmean_def Let_def)
qed

text \<open>
  The loops: the inner loop fills the cells of one output row, the outer loop the rows
  one after the other. Every cell is written at most once, and a cell that is not
  written keeps the NaN it started with.
\<close>

lemma for_each_append:
  "for_each body (xs @ ys) s =
     (case for_each body xs s of Inl e \<Rightarrow> Inl e | Inr s' \<Rightarrow> for_each body ys s')"
  by (induction xs arbitrary: s) (auto split: sum.splits)


lemma inner_loop:
  assumes "r < nrows src div yscale" "n \<le> ncols src div xscale"
    and "same_shape d (nrows src div yscale) (ncols src div xscale)"
  shows "\<exists>d'. for_each (\<lambda>col. tile_step src xscale yscale k (xscale * yscale) (xscale * yscale) r col)
                 [0..<n] d = Inr d'
      \<and> same_shape d' (nrows src div yscale) (ncols src div xscale)
      \<and> (\<forall>idx < (nrows src div yscale) * (ncols src div xscale).
           cells d' ! idx =
             (if r * (ncols src div xscale) \<le> idx \<and> idx < r * (ncols src div xscale) + n \<and>
                 tile_mean k (tile_samples src xscale yscale r (idx - r * (ncols src div xscale))) \<noteq> None
              then tile_mean k (tile_samples src xscale yscale r (idx - r * (ncols src div xscale)))
              else cells d ! idx))"
  using assms(2)
proof (induction n)
  case 0
  then show ?case using assms(3) by simp
next
  case (Suc n)
  let ?rl = "nrows src div yscale" and ?cl = "ncols src div xscale"
  let ?T = "\<lambda>c. tile_mean k (tile_samples src xscale yscale r c)"
  from Suc obtain d' where
    run: "for_each (\<lambda>col. tile_step src xscale yscale k (xscale * yscale) (xscale * yscale) r col)
            [0..<n] d = Inr d'"
    and sh: "same_shape d' ?rl ?cl"
    and ce: "\<forall>idx < ?rl * ?cl. cells d' ! idx =
             (if r * ?cl \<le> idx \<and> idx < r * ?cl + n \<and> ?T (idx - r * ?cl) \<noteq> None
              then ?T (idx - r * ?cl) else cells d ! idx)"
    by auto
  have n: "n < ?cl" using Suc.prems by simp
  have step: "tile_step src xscale yscale k (xscale * yscale) (xscale * yscale) r n d' =
     Inr (case ?T n of None \<Rightarrow> d' | Some v \<Rightarrow> d'\<lparr>cells := (cells d')[r * ?cl + n := Some v]\<rparr>)"
    using tile_step_inside [OF assms(1) n, of d' k] sh by (simp add: same_shape_def)
  let ?d'' = "case ?T n of None \<Rightarrow> d' | Some v \<Rightarrow> d'\<lparr>cells := (cells d')[r * ?cl + n := Some v]\<rparr>"
  have "for_each (\<lambda>col. tile_step src xscale yscale k (xscale * yscale) (xscale * yscale) r col)
            [0..<Suc n] d = Inr ?d''"
    by (simp add: for_each_append run step)
  moreover have "same_shape ?d'' ?rl ?cl"
    using sh by (auto simp: same_shape_def split: option.splits)
  moreover have "\<forall>idx < ?rl * ?cl. cells ?d'' ! idx =
             (if r * ?cl \<le> idx \<and> idx < r * ?cl + Suc n \<and> ?T (idx - r * ?cl) \<noteq> None
              then ?T (idx - r * ?cl) else cells d ! idx)"
  proof (intro allI impI)
    fix idx assume lt: "idx < ?rl * ?cl"
    have len: "length (cells d') = ?rl * ?cl" using sh by (simp add: same_shape_def)
    show "cells ?d'' ! idx =
             (if r * ?cl \<le> idx \<and> idx < r * ?cl + Suc n \<and> ?T (idx - r * ?cl) \<noteq> None
              then ?T (idx - r * ?cl) else cells d ! idx)"
    proof (cases "idx = r * ?cl + n")
      case True
      then show ?thesis using ce lt len by (auto split: option.splits)
    next
      case False
      then have "cells ?d'' ! idx = cells d' ! idx" by (auto split: option.splits)
      moreover have "(idx < r * ?cl + Suc n) = (idx < r * ?cl + n)" using False by auto
      ultimately show ?thesis using ce lt by simp
    qed
  qed
  ultimately show ?case by blast
qed

lemma outer_loop:
  assumes "n \<le> nrows src div yscale"
    and "same_shape d (nrows src div yscale) (ncols src div xscale)"
  shows "\<exists>d'. for_each (\<lambda>row. for_each
                   (\<lambda>col. tile_step src xscale yscale k (xscale * yscale) (xscale * yscale) row col)
                   [0..<ncols src div xscale])
                 [0..<n] d = Inr d'
      \<and> same_shape d' (nrows src div yscale) (ncols src div xscale)
      \<and> (\<forall>idx < (nrows src div yscale) * (ncols src div xscale).
           cells d' ! idx =
             (if idx < n * (ncols src div xscale) \<and>
                 tile_mean k (tile_samples src xscale yscale
                    (idx div (ncols src div xscale)) (idx mod (ncols src div xscale))) \<noteq> None
              then tile_mean k (tile_samples src xscale yscale
                    (idx div (ncols src div xscale)) (idx mod (ncols src div xscale)))
              else cells d ! idx))"
  using assms(1)
proof (induction n)
  case 0
  then show ?case using assms(2) by simp
next
  case (Suc n)
  let ?rl = "nrows src div yscale" and ?cl = "ncols src div xscale"
  let ?T = "\<lambda>r c. tile_mean k (tile_samples src xscale yscale r c)"
  let ?inner = "\<lambda>row. for_each
                   (\<lambda>col. tile_step src xscale yscale k (xscale * yscale) (xscale * yscale) row col)
                   [0..<?cl]"
  from Suc obtain d' where
    run: "for_each ?inner [0..<n] d = Inr d'"
    and sh: "same_shape d' ?rl ?cl"
    and ce: "\<forall>idx < ?rl * ?cl. cells d' ! idx =
             (if idx < n * ?cl \<and> ?T (idx div ?cl) (idx mod ?cl) \<noteq> None
              then ?T (idx div ?cl) (idx mod ?cl) else cells d ! idx)"
    by auto
  have n: "n < ?rl" using Suc.prems by simp
  obtain d'' where
    run': "?inner n d' = Inr d''"
    and sh': "same_shape d'' ?rl ?cl"
    and ce': "\<forall>idx < ?rl * ?cl. cells d'' ! idx =
             (if n * ?cl \<le> idx \<and> idx < n * ?cl + ?cl \<and> ?T n (idx - n * ?cl) \<noteq> None
              then ?T n (idx - n * ?cl) else cells d' ! idx)"
    using inner_loop [OF n order_refl sh, of k] by blast
  have "for_each ?inner [0..<Suc n] d = Inr d''"
    by (simp add: for_each_append run run')
  moreover have "\<forall>idx < ?rl * ?cl. cells d'' ! idx =
             (if idx < Suc n * ?cl \<and> ?T (idx div ?cl) (idx mod ?cl) \<noteq> None
              then ?T (idx div ?cl) (idx mod ?cl) else cells d ! idx)"
  proof (intro allI impI)
    fix idx assume lt: "idx < ?rl * ?cl"
    then have cl: "0 < ?cl" by (cases "?cl = 0") auto
    show "cells d'' ! idx =
             (if idx < Suc n * ?cl \<and> ?T (idx div ?cl) (idx mod ?cl) \<noteq> None
              then ?T (idx div ?cl) (idx mod ?cl) else cells d ! idx)"
    proof (cases "n * ?cl \<le> idx \<and> idx < n * ?cl + ?cl")
      case True
      then have dv: "idx div ?cl = n"
        by (intro div_nat_eqI) (simp_all add: mult.commute)
      have "idx mod ?cl = idx - (idx div ?cl) * ?cl"
        by (simp add: minus_div_mult_eq_mod)
      then have md: "idx mod ?cl = idx - n * ?cl" using dv by simp
      have "\<not> idx < n * ?cl" using True by simp
      then show ?thesis using ce' ce lt True dv md by simp
    next
      case False
      then consider "idx < n * ?cl" | "Suc n * ?cl \<le> idx" by fastforce
      then show ?thesis
      proof cases
        case 1
        then show ?thesis using ce' ce lt False by simp
      next
        case 2
        then have "\<not> idx < n * ?cl" "\<not> idx < Suc n * ?cl" by simp_all
        then show ?thesis using ce' ce lt False by simp
      qed
    qed
  qed
  ultimately show ?case using sh' by blast
qed

lemma multilooking_cells:
  assumes "0 < xscale" "0 < yscale" "0 \<le> k" "k \<le> int (xscale * yscale)" "py_int t = k"
  shows "\<exists>dest. multilooking src xscale yscale t = Inr dest
      \<and> nrows dest = nrows src div yscale \<and> ncols dest = ncols src div xscale
      \<and> length (cells dest) = (nrows src div yscale) * (ncols src div xscale)
      \<and> (\<forall>row < nrows src div yscale. \<forall>col < ncols src div xscale.
           cell_at dest row col = tile_mean k (tile_samples src xscale yscale row col))"
proof -
  let ?rl = "nrows src div yscale" and ?cl = "ncols src div xscale"
  let ?T = "\<lambda>r c. tile_mean k (tile_samples src xscale yscale r c)"
  have sh0: "same_shape (nan_array ?rl ?cl) ?rl ?cl"
    by (simp add: same_shape_def nan_array_def)
  obtain dest where
    run: "for_each (\<lambda>row. for_each
                   (\<lambda>col. tile_step src xscale yscale k (xscale * yscale) (xscale * yscale) row col)
                   [0..<?cl])
                 [0..<?rl] (nan_array ?rl ?cl) = Inr dest"
    and sh: "same_shape dest ?rl ?cl"
    and ce: "\<forall>idx < ?rl * ?cl. cells dest ! idx =
             (if idx < ?rl * ?cl \<and> ?T (idx div ?cl) (idx mod ?cl) \<noteq> None
              then ?T (idx div ?cl) (idx mod ?cl) else cells (nan_array ?rl ?cl) ! idx)"
    using outer_loop [OF order_refl sh0, of k] by blast
  have m: "multilooking src xscale yscale t = Inr dest"
    using assms run by (simp add: multilooking_def Let_def)
  have "cell_at dest row col = ?T row col" if "row < ?rl" "col < ?cl" for row col
  proof -
    have "row * ?cl + col < Suc row * ?cl" using that by simp
    also have "\<dots> \<le> ?rl * ?cl" using that by (intro mult_le_mono1) simp
    finally have lt: "row * ?cl + col < ?rl * ?cl" .
    have dm: "(row * ?cl + col) div ?cl = row" "(row * ?cl + col) mod ?cl = col"
      using that by simp_all
    have "cells (nan_array ?rl ?cl) ! (row * ?cl + col) = None"
      using lt by (simp add: nan_array_def)
    then show ?thesis
      using ce lt dm sh by (auto simp: cell_at_def same_shape_def)
  qed
  then show ?thesis using m sh by (auto simp: same_shape_def)
qed






subsection \<open>Shape and trailing samples\<close>

lemma tile_samples_agree:
  assumes "ncols src' = ncols src"
    and "\<And>r c. r < (nrows src div yscale) * yscale \<Longrightarrow> c < (ncols src div xscale) * xscale
           \<Longrightarrow> cell_at src' r c = cell_at src r c"
    and "row < nrows src div yscale" "col < ncols src div xscale"
  shows "tile_samples src' xscale yscale row col = tile_samples src xscale yscale row col"
proof -
  have "cell_at src' (row * yscale + dy) (col * xscale + dx)
      = cell_at src (row * yscale + dy) (col * xscale + dx)"
    if "dy < yscale" "dx < xscale" for dy dx
  proof -
    have "row * yscale + dy < Suc row * yscale" using that by simp
    also have "\<dots> \<le> (nrows src div yscale) * yscale"
      using assms(3) by (intro mult_le_mono1) simp
    finally have r: "row * yscale + dy < (nrows src div yscale) * yscale" .
    have "col * xscale + dx < Suc col * xscale" using that by simp
    also have "\<dots> \<le> (ncols src div xscale) * xscale"
      using assms(4) by (intro mult_le_mono1) simp
    finally have c: "col * xscale + dx < (ncols src div xscale) * xscale" .
    show ?thesis using assms(2) [OF r c] .
  qed
  then show ?thesis
    unfolding tile_samples_def
    by (intro arg_cong [where f = concat] map_cong refl) simp
qed

text \<open>
  C2. For every grid of shape \<open>rows \<times> cols\<close>, every \<open>xscale \<ge> 1\<close> and \<open>yscale \<ge> 1\<close>
  (and a threshold that is accepted), the grid returned by multilooking has shape exactly
  \<open>(rows div yscale, cols div xscale)\<close>, and the samples in the trailing partial rows
  and columns contribute to no output cell: any grid of the same shape that agrees with
  the input on the first \<open>(rows div yscale) * yscale\<close> rows and
  \<open>(cols div xscale) * xscale\<close> columns gives the same result.
\<close>

theorem multilooking_shape:
  assumes "wf_array src" "1 \<le> xscale" "1 \<le> yscale"
    and "0 \<le> py_int t" "py_int t \<le> int (xscale * yscale)"
  shows "\<exists>dest. multilooking src xscale yscale t = Inr dest \<and>
            nrows dest = nrows src div yscale \<and>
            ncols dest = ncols src div xscale \<and> wf_array dest \<and>
            (\<forall>src'. wf_array src' \<and> nrows src' = nrows src \<and> ncols src' = ncols src \<and>
               (\<forall>r < (nrows src div yscale) * yscale. \<forall>c < (ncols src div xscale) * xscale.
                   cell_at src' r c = cell_at src r c)
               \<longrightarrow> multilooking src' xscale yscale t = Inr dest)"
proof -
  let ?rl = "nrows src div yscale" and ?cl = "ncols src div xscale"
  obtain dest where m: "multilooking src xscale yscale t = Inr dest"
    and sh: "nrows dest = ?rl" "ncols dest = ?cl" "length (cells dest) = ?rl * ?cl"
    and ce: "\<forall>row < ?rl. \<forall>col < ?cl.
           cell_at dest row col = tile_mean (py_int t) (tile_samples src xscale yscale row col)"
    using multilooking_cells [of xscale yscale "py_int t" t src] assms by auto
  have "multilooking src' xscale yscale t = Inr dest"
    if w: "wf_array src'" and s: "nrows src' = nrows src" "ncols src' = ncols src"
      and ag: "\<forall>r < ?rl * yscale. \<forall>c < ?cl * xscale. cell_at src' r c = cell_at src r c"
    for src'
  proof -
    obtain dest' where m': "multilooking src' xscale yscale t = Inr dest'"
      and sh': "nrows dest' = ?rl" "ncols dest' = ?cl" "length (cells dest') = ?rl * ?cl"
      and ce': "\<forall>row < ?rl. \<forall>col < ?cl.
           cell_at dest' row col = tile_mean (py_int t) (tile_samples src' xscale yscale row col)"
      using multilooking_cells [of xscale yscale "py_int t" t src'] assms s by auto
    have "cells dest' ! idx = cells dest ! idx" if "idx < ?rl * ?cl" for idx
    proof -
      have cl: "0 < ?cl" using that by (cases "?cl = 0") auto
      have r: "idx div ?cl < ?rl" using that cl by (simp add: less_mult_imp_div_less)
      have c: "idx mod ?cl < ?cl" using cl by simp
      have ts: "tile_samples src' xscale yscale (idx div ?cl) (idx mod ?cl)
            = tile_samples src xscale yscale (idx div ?cl) (idx mod ?cl)"
        using ag by (intro tile_samples_agree [OF s(2) _ r c]) simp
      have "cell_at dest' (idx div ?cl) (idx mod ?cl) = cell_at dest (idx div ?cl) (idx mod ?cl)"
        using ce ce' r c ts by simp
      moreover have "idx div ?cl * ?cl + idx mod ?cl = idx" by (rule div_mult_mod_eq)
      ultimately show ?thesis unfolding cell_at_def sh sh' by simp
    qed
    then have "cells dest' = cells dest"
      by (intro nth_equalityI) (simp_all add: sh sh')
    then have "dest' = dest" using sh sh' by simp
    then show ?thesis using m' by simp
  qed
  then show ?thesis using m sh by (auto simp: wf_array_def)
qed

theorem multilooking_shape_witness:
  "wf_array \<lparr>nrows = 3, ncols = 2, cells = [Some 1, Some 3, None, Some 5, Some 8, Some 8]\<rparr> \<and>
   (1::nat) \<le> 2 \<and> (1::nat) \<le> 2 \<and> 0 \<le> py_int 0 \<and> py_int 0 \<le> int (2 * 2) \<and>
   (\<exists>dest. multilooking
       \<lparr>nrows = 3, ncols = 2, cells = [Some 1, Some 3, None, Some 5, Some 8, Some 8]\<rparr> 2 2 0 = Inr dest \<and>
     nrows dest = 1 \<and> ncols dest = 1 \<and>
     multilooking
       \<lparr>nrows = 3, ncols = 2, cells = [Some 1, Some 3, None, Some 5, None, Some 7]\<rparr> 2 2 0 = Inr dest)"
proof -
  let ?a = "\<lparr>nrows = 3, ncols = 2, cells = [Some 1, Some 3, None, Some 5, Some 8, Some 8]\<rparr>"
  let ?b = "\<lparr>nrows = 3, ncols = 2, cells = [Some 1, Some 3, None, Some 5, None, Some 7]\<rparr>"
  have ag: "\<forall>r < (2::nat). \<forall>c < (2::nat). cell_at ?b r c = cell_at ?a r c"
    by (auto simp: cell_at_def less_2_cases_iff)
  have h: "wf_array ?a" "(1::nat) \<le> 2" "0 \<le> py_int 0" "py_int 0 \<le> int (2 * 2)"
    by (simp_all add: wf_array_def py_int_def)
  obtain dest where d: "multilooking ?a 2 2 0 = Inr dest" "nrows dest = 1" "ncols dest = 1"
    and tr: "\<forall>src'. wf_array src' \<and> nrows src' = 3 \<and> ncols src' = 2 \<and>
               (\<forall>r < (2::nat). \<forall>c < (2::nat). cell_at src' r c = cell_at ?a r c)
               \<longrightarrow> multilooking src' 2 2 0 = Inr dest"
    using multilooking_shape [OF h(1) h(2) h(2) h(3) h(4)] by auto
  have "multilooking ?b 2 2 0 = Inr dest"
    using tr ag by (simp add: wf_array_def)
  then show ?thesis using h d by simp
qed

subsection \<open>Fractional thresholds\<close>





subsection \<open>Validation of the threshold\<close>




section \<open>Properties of the output naming\<close>

lemma splitext_ext:
  assumes "CHR ''.'' \<notin> set ext" "CHR ''/'' \<notin> set ext"
    and "list_ex (\<lambda>d. d \<noteq> CHR ''.'') (takeWhile (\<lambda>d. d \<noteq> CHR ''/'') (rev stem))"
  shows "splitext (stem @ ''.'' @ ext) = (stem, ''.'' @ ext)"
proof -
  let ?P = "\<lambda>c. c \<noteq> CHR ''.'' \<and> c \<noteq> CHR ''/''"
  have r: "rev (stem @ ''.'' @ ext) = rev ext @ CHR ''.'' # rev stem" by simp
  have all: "\<forall>c \<in> set (rev ext). ?P c" using assms(1,2) by auto
  have "takeWhile ?P (rev ext @ CHR ''.'' # rev stem)
      = rev ext @ takeWhile ?P (CHR ''.'' # rev stem)"
    by (rule takeWhile_append2) (use all in auto)
  then have tw: "takeWhile ?P (rev ext @ CHR ''.'' # rev stem) = rev ext" by simp
  show ?thesis
    unfolding splitext_def r Let_def tw
    using assms(3) by simp
qed

lemma suffix_keeps_name:
  "list_ex (\<lambda>d. d \<noteq> CHR ''.'')
     (takeWhile (\<lambda>d. d \<noteq> CHR ''/'') (rev (stem @ look_suffix looks crop_out)))"
  by (simp add: look_suffix_def)

text \<open>
  C9. For every path with an extension (a stem whose file name is not only dots, a dot,
  and an extension without dot or slash), integer looks and integer crop code, the
  output name has \<^verbatim>\<open>_<looks>rlks_<crop>cr\<close> inserted before the extension; \<open>a/b.tif\<close> with
  looks 2 and crop 4 gives \<open>a/b_2rlks_4cr.tif\<close>. The transform is not idempotent:
  applied to a name that already carries a look suffix it appends a second one.
\<close>

theorem mlooked_path_inserts_suffix:
  assumes "CHR ''.'' \<notin> set ext" "CHR ''/'' \<notin> set ext"
    and "list_ex (\<lambda>d. d \<noteq> CHR ''.'') (takeWhile (\<lambda>d. d \<noteq> CHR ''/'') (rev stem))"
  shows "mlooked_path (stem @ ''.'' @ ext) looks crop_out
           = stem @ ''_'' @ show_int looks @ ''rlks_'' @ show_int crop_out @ ''cr'' @ ''.'' @ ext \<and>
         mlooked_path (mlooked_path (stem @ ''.'' @ ext) looks crop_out) looks' crop_out'
           = stem @ look_suffix looks crop_out @ look_suffix looks' crop_out' @ ''.'' @ ext \<and>
         mlooked_path (mlooked_path (stem @ ''.'' @ ext) looks crop_out) looks crop_out
           \<noteq> mlooked_path (stem @ ''.'' @ ext) looks crop_out \<and>
         mlooked_path ''a/b.tif'' 2 4 = ''a/b_2rlks_4cr.tif''"
proof -
  have one: "mlooked_path (stem @ ''.'' @ ext) l c = stem @ look_suffix l c @ ''.'' @ ext" for l c
    using splitext_ext [OF assms] by (simp add: mlooked_path_def)
  have two: "mlooked_path ((stem @ look_suffix looks crop_out) @ ''.'' @ ext) l c
      = (stem @ look_suffix looks crop_out) @ look_suffix l c @ ''.'' @ ext" for l c
    using splitext_ext [OF assms(1,2) suffix_keeps_name [of stem looks crop_out]]
    by (simp add: mlooked_path_def)
  have ne: "look_suffix looks crop_out \<noteq> []" by (simp add: look_suffix_def)
  have ex: "mlooked_path ''a/b.tif'' 2 4 = ''a/b_2rlks_4cr.tif''" by code_simp
  have "mlooked_path (mlooked_path (stem @ ''.'' @ ext) looks crop_out) looks crop_out
           \<noteq> mlooked_path (stem @ ''.'' @ ext) looks crop_out"
    using one [of looks crop_out] two [of looks crop_out] ne by simp
  then show ?thesis
    using one [of looks crop_out] two [of looks' crop_out'] ex
    by (simp add: look_suffix_def)
qed

theorem mlooked_path_inserts_suffix_witness:
  "CHR ''.'' \<notin> set ''tif'' \<and> CHR ''/'' \<notin> set ''tif'' \<and>
   list_ex (\<lambda>d. d \<noteq> CHR ''.'') (takeWhile (\<lambda>d. d \<noteq> CHR ''/'') (rev ''some/dir/geo_060619-061002_unw'')) \<and>
   mlooked_path ''some/dir/geo_060619-061002_unw.tif'' 4 2
      = ''some/dir/geo_060619-061002_unw_4rlks_2cr.tif'' \<and>
   mlooked_path (mlooked_path ''some/dir/geo_060619-061002_unw.tif'' 4 2) 4 8
      = ''some/dir/geo_060619-061002_unw_4rlks_2cr_4rlks_8cr.tif''"
proof -
  have h: "CHR ''.'' \<notin> set ''tif''" "CHR ''/'' \<notin> set ''tif''"
    "list_ex (\<lambda>d. d \<noteq> CHR ''.'') (takeWhile (\<lambda>d. d \<noteq> CHR ''/'') (rev ''some/dir/geo_060619-061002_unw''))"
    by simp_all
  have s: "show_int 4 = ''4''" "show_int 2 = ''2''" "show_int 8 = ''8''" by code_simp+
  note t = mlooked_path_inserts_suffix
    [OF h, of 4 2 4 8, unfolded look_suffix_def s, simplified append.simps append_assoc]
  show ?thesis
    using h t [THEN conjunct1] t [THEN conjunct2, THEN conjunct1] by simp
qed

end
